theory Spec2Isabelle
  imports Main
begin

section \<open>The container lifecycle core of gitwit-agent\<close>

text \<open>
  The program (\<^verbatim>\<open>src/container.ts\<close>, repeated in \<^verbatim>\<open>src/app.js\<close>) is a chain of
  asynchronous calls to a container runtime. It is embedded as a reactive machine: the state
  holds what the main line is awaiting, every runtime call issued so far, the console, the
  registered SIGINT handlers and the stream listeners; the environment drives it with inputs
  (a runtime call settles, a stream emits an event, an interrupt arrives). Each source function
  is one definition for its synchronous entry and one for each point where it resumes after an
  \<^verbatim>\<open>await\<close>. Nothing of the runtime itself is modelled: its answers are inputs.
\<close>

subsection \<open>Data\<close>

type_synonym handle = string
type_synonym session = nat
type_synonym stream_id = nat

datatype error = Err string

text \<open>The options object of \<^verbatim>\<open>docker.createContainer\<close> (container.ts lines 7-13).\<close>

record create_options =
  Image :: string
  Env :: "string list"
  Tty :: bool
  Cmd :: "string list"
  OpenStdin :: bool

text \<open>The arguments of \<^verbatim>\<open>tar.create\<close> (line 57): its options and its file list.\<close>

record archive =
  gzip :: bool
  portable :: bool
  cwd :: string
  entries :: "string list"

text \<open>
  The calls the program makes on the runtime, with the arguments it passes.
  \<open>Stop c None\<close> is \<^verbatim>\<open>container.stop()\<close>, \<open>Stop c (Some True)\<close> is
  \<^verbatim>\<open>container.stop({ force: true })\<close>.
\<close>

datatype call =
    CreateContainer create_options
  | Start handle
  | Logs handle bool bool bool
  | Exec handle "string list" bool bool
  | ExecStart session bool bool
  | PutArchive handle archive string
  | Stop handle "bool option"
  | Remove handle

datatype val = VContainer handle | VSession session | VStream stream_id | VNone

datatype stream_event = Data string | End | Error error

text \<open>The callbacks the program registers on streams (lines 27, 49-51 and 34-36).\<close>

datatype listener = LogChunk | LogCommandOutput | ResolveWait

text \<open>
  What the main line (the async function of app.js lines 145-231, from line 199 on) is
  doing: awaiting one runtime call, awaiting the promise of \<^verbatim>\<open>waitForStreamEnd\<close>, returned,
  rejected with an error that nothing catches, or gone because the process was killed by the
  default disposition of SIGINT.
\<close>

datatype pc =
    AwaitCreateContainer
  | AwaitStart handle
  | AwaitLogs handle
  | AwaitExec handle
  | AwaitExecStart handle
  | AwaitStreamEnd handle stream_id
  | AwaitPutArchive handle
  | AwaitStop handle
  | AwaitRemove handle
  | Returned
  | Rejected error
  | Killed

text \<open>The statements of main that follow \<^verbatim>\<open>startContainer\<close> (app.js lines 219-228).\<close>

datatype op =
    RunCommand "string list"
  | CopyFile string string
  | StopContainer
  | RemoveContainer

record state =
  pc :: pc
  dryRun :: bool
  todo :: "op list"
  calls :: "call list"
  console :: "string list"
  sigint_handlers :: "handle list"
  listeners :: "(stream_id \<times> string \<times> listener) list"
  handler_pending :: nat
  unhandled_rejections :: "error list"
  unhandled_error_events :: "error list"

text \<open>
  What the program takes from its platform without defining it: \<^verbatim>\<open>path.dirname\<close>,
  \<^verbatim>\<open>path.basename\<close>, whether a local file exists, and whether \<^verbatim>\<open>stream.on\<close> throws
  synchronously for a stream and an event name.
\<close>

record platform =
  path_dirname :: "string \<Rightarrow> string"
  path_basename :: "string \<Rightarrow> string"
  file_exists :: "string \<Rightarrow> bool"
  on_throws :: "stream_id \<Rightarrow> string \<Rightarrow> error option"

datatype input =
    Settled "error + val"
  | HandlerSettled "error + val"
  | StreamEvent stream_id stream_event
  | SIGINT

subsection \<open>Constants of app.js (lines 11-18)\<close>

definition baseImage :: string where
  "baseImage = ''node:latest''"

definition buildDirectory :: string where
  "buildDirectory = ''./build/''"

definition containerHome :: string where
  "containerHome = ''/app/''"

definition buildScriptPath :: string where
  "buildScriptPath = buildDirectory @ ''build.sh''"

subsection \<open>Primitive effects\<close>

definition issue :: "call \<Rightarrow> state \<Rightarrow> state" where
  "issue c s = s\<lparr>calls := calls s @ [c]\<rparr>"

definition console_log :: "string \<Rightarrow> state \<Rightarrow> state" where
  "console_log l s = s\<lparr>console := console s @ [l]\<rparr>"

definition stream_on :: "stream_id \<Rightarrow> string \<Rightarrow> listener \<Rightarrow> state \<Rightarrow> state" where
  "stream_on st ev f s = s\<lparr>listeners := listeners s @ [(st, ev, f)]\<rparr>"

subsection \<open>The functions of container.ts\<close>

text \<open>\<^verbatim>\<open>createContainer\<close>, lines 5-14.\<close>

definition createContainer :: "string \<Rightarrow> string list \<Rightarrow> state \<Rightarrow> state" where
  "createContainer tag environment s =
     (issue (CreateContainer \<lparr>Image = tag, Env = environment, Tty = True,
                              Cmd = [''/bin/sh''], OpenStdin = True\<rparr>) s)
       \<lparr>pc := AwaitCreateContainer\<rparr>"

text \<open>
  \<^verbatim>\<open>startContainer\<close>, lines 16-29: \<^verbatim>\<open>process.on('SIGINT', ...)\<close> (line 17), then the start
  call (line 21); after it settles, the logs call (lines 22-26); after that settles, the
  data listener (line 27) and the return.
\<close>

definition startContainer :: "handle \<Rightarrow> state \<Rightarrow> state" where
  "startContainer c s =
     (issue (Start c) (s\<lparr>sigint_handlers := sigint_handlers s @ [c]\<rparr>))\<lparr>pc := AwaitStart c\<rparr>"

definition startContainer_started :: "handle \<Rightarrow> state \<Rightarrow> state" where
  "startContainer_started c s = (issue (Logs c True True True) s)\<lparr>pc := AwaitLogs c\<rparr>"

text \<open>The body of the SIGINT handler, lines 18-19; its promise is returned to nobody.\<close>

definition sigint_handler :: "handle \<Rightarrow> state \<Rightarrow> state" where
  "sigint_handler c s =
     (issue (Stop c (Some True)) (console_log ''Caught interrupt signal'' s))
       \<lparr>handler_pending := Suc (handler_pending s)\<rparr>"

text \<open>
  \<^verbatim>\<open>waitForStreamEnd\<close>, lines 31-41: the executor registers the end listener; only a
  synchronous throw of \<^verbatim>\<open>stream.on\<close> reaches \<^verbatim>\<open>reject\<close>. The awaiting caller then
  either waits on the pending promise or is rejected at once.
\<close>

definition waitForStreamEnd :: "platform \<Rightarrow> handle \<Rightarrow> stream_id \<Rightarrow> state \<Rightarrow> state" where
  "waitForStreamEnd P c st s =
     (case on_throws P st ''end'' of
        None \<Rightarrow> (stream_on st ''end'' ResolveWait s)\<lparr>pc := AwaitStreamEnd c st\<rparr>
      | Some e \<Rightarrow> s\<lparr>pc := Rejected e\<rparr>)"

text \<open>
  \<^verbatim>\<open>runCommandInContainer\<close>, lines 42-53: the exec call (lines 43-47); after it settles,
  the start of the session (line 48); after that settles, the data listener (lines 49-51)
  and the wait (line 52).
\<close>

definition runCommandInContainer :: "handle \<Rightarrow> string list \<Rightarrow> state \<Rightarrow> state" where
  "runCommandInContainer c command s = (issue (Exec c command True True) s)\<lparr>pc := AwaitExec c\<rparr>"

definition runCommandInContainer_session :: "handle \<Rightarrow> session \<Rightarrow> state \<Rightarrow> state" where
  "runCommandInContainer_session c x s = (issue (ExecStart x True True) s)\<lparr>pc := AwaitExecStart c\<rparr>"

definition runCommandInContainer_stream :: "platform \<Rightarrow> handle \<Rightarrow> stream_id \<Rightarrow> state \<Rightarrow> state" where
  "runCommandInContainer_stream P c st s =
     (case on_throws P st ''data'' of
        Some e \<Rightarrow> s\<lparr>pc := Rejected e\<rparr>
      | None \<Rightarrow> waitForStreamEnd P c st (stream_on st ''data'' LogCommandOutput s))"

text \<open>\<^verbatim>\<open>copyFileToContainer\<close>, lines 55-59. Nothing here looks at the file system.\<close>

definition copyFileToContainer :: "platform \<Rightarrow> handle \<Rightarrow> string \<Rightarrow> string \<Rightarrow> state \<Rightarrow> state" where
  "copyFileToContainer P c localFilePath containerFilePath s =
     (let baseDir = path_dirname P localFilePath;
          archive = \<lparr>gzip = False, portable = True, cwd = baseDir,
                     entries = [path_basename P localFilePath]\<rparr>
      in (issue (PutArchive c archive containerFilePath) s)\<lparr>pc := AwaitPutArchive c\<rparr>)"

subsection \<open>The main script of app.js, from line 199\<close>

text \<open>The statements after \<^verbatim>\<open>startContainer\<close> has returned, lines 219-228, in order.\<close>

definition main_script :: "op list" where
  "main_script =
     [RunCommand [''mkdir'', containerHome],
      CopyFile buildScriptPath containerHome,
      CopyFile ''./create_github_repo.sh'' containerHome,
      RunCommand [''bash'', containerHome @ ''create_github_repo.sh''],
      StopContainer,
      RemoveContainer]"

text \<open>
  The main line goes on with its next statement. Every statement is an \<^verbatim>\<open>await\<close> outside
  any \<^verbatim>\<open>try\<close>, so each one issues its call and suspends.
\<close>

definition main_next :: "platform \<Rightarrow> handle \<Rightarrow> state \<Rightarrow> state" where
  "main_next P c s =
     (case todo s of
        [] \<Rightarrow> s\<lparr>pc := Returned\<rparr>
      | RunCommand command # rest \<Rightarrow> runCommandInContainer c command (s\<lparr>todo := rest\<rparr>)
      | CopyFile l d # rest \<Rightarrow> copyFileToContainer P c l d (s\<lparr>todo := rest\<rparr>)
      | StopContainer # rest \<Rightarrow> (issue (Stop c None) (s\<lparr>todo := rest\<rparr>))\<lparr>pc := AwaitStop c\<rparr>
      | RemoveContainer # rest \<Rightarrow> (issue (Remove c) (s\<lparr>todo := rest\<rparr>))\<lparr>pc := AwaitRemove c\<rparr>)"

text \<open>
  Lines 201-215: after the container is created. The dry run logs two lines and then
  evaluates the template of line 209, which reads \<^verbatim>\<open>dockerTag\<close>, a name bound nowhere.
\<close>

definition main_created :: "handle \<Rightarrow> state \<Rightarrow> state" where
  "main_created c s =
     (let s1 = console_log (''Container '' @ c @ '' created.'') s in
      if dryRun s1 then
        (console_log ''-----''
          (console_log ''Dry run, not starting container. To debug, run:'' s1))
          \<lparr>pc := Rejected (Err ''ReferenceError: dockerTag is not defined'')\<rparr>
      else startContainer c s1)"

text \<open>Line 27 and the return of \<^verbatim>\<open>startContainer\<close>, then line 216 and what follows.\<close>

definition startContainer_logs :: "platform \<Rightarrow> handle \<Rightarrow> stream_id \<Rightarrow> state \<Rightarrow> state" where
  "startContainer_logs P c st s =
     (case on_throws P st ''data'' of
        Some e \<Rightarrow> s\<lparr>pc := Rejected e\<rparr>
      | None \<Rightarrow> main_next P c
          (console_log (''Container '' @ c @ '' started.'') (stream_on st ''data'' LogChunk s)))"

definition main_stopped :: "platform \<Rightarrow> handle \<Rightarrow> state \<Rightarrow> state" where
  "main_stopped P c s = main_next P c (console_log (''Container '' @ c @ '' stopped.'') s)"

definition main_removed :: "platform \<Rightarrow> handle \<Rightarrow> state \<Rightarrow> state" where
  "main_removed P c s = main_next P c (console_log (''Container '' @ c @ '' removed.'') s)"

definition init :: "bool \<Rightarrow> state" where
  "init d = \<lparr>pc = Returned, dryRun = d, todo = main_script, calls = [], console = [],
             sigint_handlers = [], listeners = [], handler_pending = 0,
             unhandled_rejections = [], unhandled_error_events = []\<rparr>"

definition main :: "bool \<Rightarrow> string list \<Rightarrow> state" where
  "main d environment = createContainer baseImage environment (init d)"

subsection \<open>The environment's inputs\<close>

text \<open>
  The call the main line awaits settles. A rejection reaches the top level at every await,
  since the program has no \<^verbatim>\<open>catch\<close> around any of them. A value of the wrong kind for
  the awaited call, or a settlement when nothing is awaited, is no input of this program.
\<close>

fun settled :: "platform \<Rightarrow> pc \<Rightarrow> error + val \<Rightarrow> state \<Rightarrow> state" where
  "settled P Returned r s = s"
| "settled P (Rejected e) r s = s"
| "settled P Killed r s = s"
| "settled P (AwaitStreamEnd c st) r s = s"
| "settled P q (Inl e) s = s\<lparr>pc := Rejected e\<rparr>"
| "settled P AwaitCreateContainer (Inr (VContainer c)) s = main_created c s"
| "settled P (AwaitStart c) (Inr v) s = startContainer_started c s"
| "settled P (AwaitLogs c) (Inr (VStream st)) s = startContainer_logs P c st s"
| "settled P (AwaitExec c) (Inr (VSession x)) s = runCommandInContainer_session c x s"
| "settled P (AwaitExecStart c) (Inr (VStream st)) s = runCommandInContainer_stream P c st s"
| "settled P (AwaitPutArchive c) (Inr v) s = main_next P c s"
| "settled P (AwaitStop c) (Inr v) s = main_stopped P c s"
| "settled P (AwaitRemove c) (Inr v) s = main_removed P c s"
| "settled P q r s = s"

text \<open>
  The forced stop of a SIGINT handler settles. The handler is an async function whose promise
  nobody holds: a rejection of its awaited stop is an unhandled rejection.
\<close>

fun handler_settled :: "error + val \<Rightarrow> state \<Rightarrow> state" where
  "handler_settled r s =
     (case handler_pending s of
        0 \<Rightarrow> s
      | Suc n \<Rightarrow>
          (case r of
             Inl e \<Rightarrow> s\<lparr>handler_pending := n, unhandled_rejections := unhandled_rejections s @ [e]\<rparr>
           | Inr v \<Rightarrow> s\<lparr>handler_pending := n\<rparr>))"

fun event_name :: "stream_event \<Rightarrow> string" where
  "event_name (Data d) = ''data''"
| "event_name End = ''end''"
| "event_name (Error e) = ''error''"

text \<open>
  One listener is called with an event: line 27 logs the chunk, lines 49-51 log it after
  \<^verbatim>\<open>Command output: \<close>, lines 34-36 resolve the promise, which resumes the main line when
  it is the one awaiting that promise.
\<close>

fun run_listener :: "platform \<Rightarrow> stream_id \<Rightarrow> stream_event \<Rightarrow> listener \<Rightarrow> state \<Rightarrow> state" where
  "run_listener P st (Data d) LogChunk s = console_log d s"
| "run_listener P st (Data d) LogCommandOutput s = console_log (''Command output: '' @ d) s"
| "run_listener P st ev ResolveWait s =
     (case pc s of
        AwaitStreamEnd c st' \<Rightarrow> if st' = st then main_next P c s else s
      | _ \<Rightarrow> s)"
| "run_listener P st ev f s = s"

definition listeners_for :: "stream_id \<Rightarrow> string \<Rightarrow> state \<Rightarrow> listener list" where
  "listeners_for st n s = map (\<lambda>(a, b, f). f) (filter (\<lambda>(a, b, f). a = st \<and> b = n) (listeners s))"

text \<open>
  A stream emits an event: the listeners registered for it run in registration order. An
  error event that has no listener is recorded (Node raises it as an uncaught exception); the
  program registers none anywhere. The machine goes on after it, so what holds for every
  sequence of inputs holds for a platform that stops there, too.
\<close>

definition emit :: "platform \<Rightarrow> stream_id \<Rightarrow> stream_event \<Rightarrow> state \<Rightarrow> state" where
  "emit P st ev s =
     (let fs = listeners_for st (event_name ev) s in
      if fs = [] then
        (case ev of
           Error e \<Rightarrow> s\<lparr>unhandled_error_events := unhandled_error_events s @ [e]\<rparr>
         | _ \<Rightarrow> s)
      else fold (run_listener P st ev) fs s)"

text \<open>
  An interrupt arrives: with no handler registered the default disposition ends the process;
  otherwise every registered handler runs and the main line stays where it is.
\<close>

definition sigint :: "state \<Rightarrow> state" where
  "sigint s =
     (case sigint_handlers s of
        [] \<Rightarrow> s\<lparr>pc := Killed\<rparr>
      | h # hs \<Rightarrow> fold sigint_handler (h # hs) s)"

fun step :: "platform \<Rightarrow> state \<Rightarrow> input \<Rightarrow> state" where
  "step P s i =
     (if pc s = Killed then s
      else case i of
        Settled r \<Rightarrow> settled P (pc s) r s
      | HandlerSettled r \<Rightarrow> handler_settled r s
      | StreamEvent st ev \<Rightarrow> emit P st ev s
      | SIGINT \<Rightarrow> sigint s)"

definition run :: "platform \<Rightarrow> state \<Rightarrow> input list \<Rightarrow> state" where
  "run P s ins = foldl (step P) s ins"

subsection \<open>A concrete platform\<close>

text \<open>
  The two path functions as Node computes them on POSIX: \<^verbatim>\<open>basename\<close> drops trailing
  slashes and keeps what follows the last remaining slash; \<^verbatim>\<open>dirname\<close> scans from the end
  down to index 1, skips trailing slashes and the last component, and cuts at the slash
  before it. They serve the concrete runs below; the general theorems hold for every platform.
\<close>

definition posix_basename :: "string \<Rightarrow> string" where
  "posix_basename p =
     rev (takeWhile (\<lambda>x. x \<noteq> CHR ''/'') (dropWhile (\<lambda>x. x = CHR ''/'') (rev p)))"

definition posix_dirname :: "string \<Rightarrow> string" where
  "posix_dirname p =
     (if p = [] then ''.''
      else
        let r = dropWhile (\<lambda>x. x \<noteq> CHR ''/'') (dropWhile (\<lambda>x. x = CHR ''/'') (rev (tl p)));
            hasRoot = (hd p = CHR ''/'')
        in if r = [] then (if hasRoot then ''/'' else ''.'')
           else if hasRoot \<and> length r = 1 then ''//''
           else take (length r) p)"

definition node_posix :: "(string \<Rightarrow> bool) \<Rightarrow> platform" where
  "node_posix fe =
     \<lparr>path_dirname = posix_dirname, path_basename = posix_basename, file_exists = fe,
      on_throws = (\<lambda>st n. None)\<rparr>"

subsection \<open>Observations on states and calls\<close>

fun create_requests :: "call list \<Rightarrow> create_options list" where
  "create_requests [] = []"
| "create_requests (CreateContainer opts # cs) = opts # create_requests cs"
| "create_requests (c # cs) = create_requests cs"

fun is_forced_stop :: "call \<Rightarrow> bool" where
  "is_forced_stop (Stop c (Some True)) = True"
| "is_forced_stop c = False"

fun is_put_archive :: "call \<Rightarrow> bool" where
  "is_put_archive (PutArchive c a d) = True"
| "is_put_archive c = False"

text \<open>The main line is suspended on a runtime call.\<close>

fun awaiting_call :: "pc \<Rightarrow> bool" where
  "awaiting_call Returned = False"
| "awaiting_call (Rejected e) = False"
| "awaiting_call Killed = False"
| "awaiting_call (AwaitStreamEnd c st) = False"
| "awaiting_call q = True"

text \<open>
  The resolving callback of \<^verbatim>\<open>waitForStreamEnd\<close> is registered for no event but
  \<^verbatim>\<open>end\<close>. Every state the program reaches is of this kind.
\<close>

definition resolve_only_on_end :: "state \<Rightarrow> bool" where
  "resolve_only_on_end s = list_all (\<lambda>(a, n, f). f \<noteq> ResolveWait \<or> n = ''end'') (listeners s)"

text \<open>
  The two ways an interrupt ends the invocation: the default disposition of the signal, when
  no handler is registered, and a rejection of the handler's own promise, which nothing
  catches and which Node (from version 15) raises as a fatal error.
\<close>

definition crashed_by_interrupt :: "state \<Rightarrow> bool" where
  "crashed_by_interrupt s = (pc s = Killed \<or> unhandled_rejections s \<noteq> [])"

text \<open>A file system that holds no file.\<close>

definition no_files :: "string \<Rightarrow> bool" where
  "no_files p = False"

text \<open>
  A call of \<^verbatim>\<open>runCommandInContainer\<close> on a handle has not returned to the main line: it
  is suspended on one of its three awaits, or it has failed, or the process is gone.
\<close>

fun exec_not_returned :: "handle \<Rightarrow> pc \<Rightarrow> bool" where
  "exec_not_returned c (AwaitExec c') = (c' = c)"
| "exec_not_returned c (AwaitExecStart c') = (c' = c)"
| "exec_not_returned c (AwaitStreamEnd c' st) = (c' = c)"
| "exec_not_returned c (Rejected e) = True"
| "exec_not_returned c Killed = True"
| "exec_not_returned c q = False"

text \<open>A stream emits the given chunks, one data event each.\<close>

definition chunk_events :: "stream_id \<Rightarrow> string list \<Rightarrow> input list" where
  "chunk_events st chunks = map (\<lambda>d. StreamEvent st (Data d)) chunks"

fun is_remove :: "call \<Rightarrow> bool" where
  "is_remove (Remove c) = True"
| "is_remove c = False"

definition no_remove :: "state \<Rightarrow> bool" where
  "no_remove s = (filter is_remove (calls s) = [])"

text \<open>
  Where the main line stands in its script: what is left to do while it awaits each kind of
  call, and that no remove has been issued before the one it awaits last.
\<close>

fun main_line_ok :: "pc \<Rightarrow> state \<Rightarrow> bool" where
  "main_line_ok AwaitCreateContainer s = (todo s = main_script \<and> no_remove s)"
| "main_line_ok (AwaitStart c) s = (todo s = main_script \<and> no_remove s)"
| "main_line_ok (AwaitLogs c) s = (todo s = main_script \<and> no_remove s)"
| "main_line_ok (AwaitExec c) s =
     ((todo s = drop 1 main_script \<or> todo s = drop 4 main_script) \<and> no_remove s)"
| "main_line_ok (AwaitExecStart c) s =
     ((todo s = drop 1 main_script \<or> todo s = drop 4 main_script) \<and> no_remove s)"
| "main_line_ok (AwaitStreamEnd c st) s =
     ((todo s = drop 1 main_script \<or> todo s = drop 4 main_script) \<and> no_remove s)"
| "main_line_ok (AwaitPutArchive c) s =
     ((todo s = drop 2 main_script \<or> todo s = drop 3 main_script) \<and> no_remove s)"
| "main_line_ok (AwaitStop c) s = (todo s = [RemoveContainer] \<and> no_remove s)"
| "main_line_ok (AwaitRemove c) s = (todo s = [])"
| "main_line_ok q s = True"

subsection \<open>Concrete runs\<close>

text \<open>The container is created and started, its logs are attached, and the first exec call is rejected.\<close>

definition exec_failure_run :: "input list" where
  "exec_failure_run =
     [Settled (Inr (VContainer ''c1'')), Settled (Inr VNone), Settled (Inr (VStream 0)),
      Settled (Inl (Err ''exec failed''))]"

text \<open>
  A whole run in which an interrupt arrives during the last command: the handler's forced stop
  is accepted, the stream of the command ends, and the main line goes on to its own stop.
\<close>

definition interrupted_run :: "input list" where
  "interrupted_run =
     [Settled (Inr (VContainer ''c1'')), Settled (Inr VNone), Settled (Inr (VStream 0)),
      Settled (Inr (VSession 1)), Settled (Inr (VStream 1)), StreamEvent 1 End,
      Settled (Inr VNone), Settled (Inr VNone),
      Settled (Inr (VSession 2)), Settled (Inr (VStream 2)),
      SIGINT, HandlerSettled (Inr VNone), StreamEvent 2 End]"

text \<open>The same run, with the main line's stop accepted by the runtime.\<close>

definition interrupted_run_stopped :: "input list" where
  "interrupted_run_stopped = interrupted_run @ [Settled (Inr VNone)]"

text \<open>The runtime's answer to a stop of a container that is not running.\<close>

definition already_stopped :: error where
  "already_stopped = Err ''(HTTP code 304) container already stopped''"

text \<open>
  The container is created, the start call is in flight, an interrupt arrives and the runtime
  rejects the handler's forced stop.
\<close>

definition interrupt_while_created :: "input list" where
  "interrupt_while_created =
     [Settled (Inr (VContainer ''c1'')), SIGINT, HandlerSettled (Inl already_stopped)]"


section \<open>Properties\<close>

subsection \<open>Runs and frames\<close>

declare step.simps [simp del]
declare handler_settled.simps [simp del]

lemma run_Nil [simp]: "run P s [] = s"
  by (simp add: run_def)

lemma run_Cons [simp]: "run P s (i # ins) = run P (step P s i) ins"
  by (simp add: run_def)

lemma run_append: "run P s (xs @ ys) = run P (run P s xs) ys"
  by (simp add: run_def)

lemma run_snoc: "run P s (ins @ [i]) = step P (run P s ins) i"
  by (simp add: run_def)

lemma step_Killed: "pc s = Killed \<Longrightarrow> step P s i = s"
  by (simp add: step.simps)

lemma run_Killed: "pc s = Killed \<Longrightarrow> run P s ins = s"
  by (induction ins) (simp_all add: step_Killed)

lemmas effect_defs = issue_def console_log_def stream_on_def

lemmas resume_defs =
  main_created_def startContainer_def startContainer_started_def startContainer_logs_def
  runCommandInContainer_def runCommandInContainer_session_def runCommandInContainer_stream_def
  waitForStreamEnd_def copyFileToContainer_def main_stopped_def main_removed_def

lemma create_requests_append:
  "create_requests (xs @ ys) = create_requests xs @ create_requests ys"
  by (induction xs rule: create_requests.induct) simp_all

lemma main_next_create_requests:
  "create_requests (calls (main_next P c s)) = create_requests (calls s)"
  by (simp add: main_next_def effect_defs resume_defs create_requests_append Let_def
      split: list.splits op.splits)

lemma settled_create_requests:
  "create_requests (calls (settled P q r s)) = create_requests (calls s)"
  by (cases "(P, q, r, s)" rule: settled.cases)
    (simp_all add: effect_defs resume_defs main_next_create_requests create_requests_append Let_def
      split: option.splits)

lemma run_listener_create_requests:
  "create_requests (calls (run_listener P st ev f s)) = create_requests (calls s)"
  by (cases "(P, st, ev, f, s)" rule: run_listener.cases)
    (simp_all add: effect_defs main_next_create_requests split: pc.splits)

lemma emit_invariant:
  assumes "Q s"
    and "\<And>f t. Q t \<Longrightarrow> Q (run_listener P st ev f t)"
    and "\<And>e. Q (s\<lparr>unhandled_error_events := unhandled_error_events s @ [e]\<rparr>)"
  shows "Q (emit P st ev s)"
proof -
  have "Q (fold (run_listener P st ev) fs s)" for fs
    by (rule fold_invariant [where Q = "\<lambda>f. True"]) (simp_all add: assms)
  then show ?thesis
    using assms(1,3) by (simp add: emit_def Let_def split: stream_event.splits)
qed

lemma emit_create_requests:
  "create_requests (calls (emit P st ev s)) = create_requests (calls s)"
  by (rule emit_invariant [where Q = "\<lambda>t. create_requests (calls t) = create_requests (calls s)"])
    (simp_all add: run_listener_create_requests)

lemma sigint_handler_calls:
  "calls (fold sigint_handler hs s) = calls s @ map (\<lambda>h. Stop h (Some True)) hs"
  by (induction hs arbitrary: s) (simp_all add: sigint_handler_def effect_defs)

lemma sigint_calls:
  "calls (sigint s) = calls s @ map (\<lambda>h. Stop h (Some True)) (sigint_handlers s)"
proof (cases "sigint_handlers s")
  case Nil
  then show ?thesis by (simp add: sigint_def)
next
  case (Cons h hs)
  then have "sigint s = fold sigint_handler (h # hs) s"
    by (simp add: sigint_def)
  then show ?thesis
    using sigint_handler_calls [of "h # hs" s] Cons by simp
qed

lemma sigint_create_requests:
  "create_requests (calls (sigint s)) = create_requests (calls s)"
proof -
  have "create_requests (map (\<lambda>h. Stop h (Some True)) hs) = []" for hs
    by (induction hs) simp_all
  then show ?thesis
    by (simp add: sigint_calls create_requests_append)
qed

lemma handler_settled_calls: "calls (handler_settled r s) = calls s"
  by (simp add: handler_settled.simps split: nat.splits sum.splits)

lemma step_create_requests:
  "create_requests (calls (step P s i)) = create_requests (calls s)"
  by (cases i)
    (simp_all add: step.simps settled_create_requests emit_create_requests
      sigint_create_requests handler_settled_calls)

lemma run_create_requests:
  "create_requests (calls (run P s ins)) = create_requests (calls s)"
  by (induction ins arbitrary: s) (simp_all add: step_create_requests)

subsection \<open>The creation request\<close>

text \<open>
  Claim C9. For every image tag and environment sequence, \<^verbatim>\<open>createContainer\<close> issues one
  creation request to the runtime and suspends on it: the request names that image, carries
  that environment unchanged, allocates a pseudo-terminal (Tty), keeps standard input open
  (OpenStdin) and runs the shell \<^verbatim>\<open>/bin/sh\<close> as the container's command.
\<close>

theorem createContainer_request:
  "\<exists>opts. calls (createContainer tag environment s) = calls s @ [CreateContainer opts]
     \<and> Image opts = tag \<and> Env opts = environment \<and> Tty opts \<and> OpenStdin opts
     \<and> Cmd opts = [''/bin/sh'']
     \<and> pc (createContainer tag environment s) = AwaitCreateContainer"
  by (simp add: createContainer_def issue_def)

text \<open>
  Claim C10. The command of the creation request is the constant \<^verbatim>\<open>['/bin/sh']\<close> whatever
  the tag and the environment are, and in every run of the main script, dry or not and under
  every sequence of inputs, the one creation request ever issued carries that command.
\<close>

theorem createContainer_fixed_command:
  "map Cmd (create_requests (calls (createContainer tag environment s)))
     = map Cmd (create_requests (calls s)) @ [[''/bin/sh'']]
   \<and> map Cmd (create_requests (calls (run P (main d environment) ins))) = [[''/bin/sh'']]"
  by (simp add: run_create_requests main_def init_def createContainer_def issue_def
      create_requests_append)

subsection \<open>File transfer\<close>

text \<open>
  Claim C8. For every local path, \<^verbatim>\<open>copyFileToContainer\<close> issues one archive-extraction
  call on the handle and suspends on it: the archive is built in the directory
  \<^verbatim>\<open>dirname(localPath)\<close>, holds the single entry \<^verbatim>\<open>basename(localPath)\<close>, is not
  compressed and is portable, and the call targets the destination path. On the POSIX
  platform the entry name holds no slash, so it is never the absolute path.
\<close>

theorem copyFileToContainer_archive:
  "calls (copyFileToContainer P c localPath destPath s) =
     calls s @ [PutArchive c \<lparr>gzip = False, portable = True, cwd = path_dirname P localPath,
                               entries = [path_basename P localPath]\<rparr> destPath]
   \<and> pc (copyFileToContainer P c localPath destPath s) = AwaitPutArchive c
   \<and> CHR ''/'' \<notin> set (path_basename (node_posix fe) localPath)"
proof -
  have "CHR ''/'' \<notin> set (posix_basename localPath)"
    by (auto simp: posix_basename_def dest: set_takeWhileD)
  then show ?thesis
    by (simp add: copyFileToContainer_def issue_def Let_def node_posix_def)
qed

text \<open>
  Claim C4, as stated, fails: on a platform where no file exists, copying the helper script
  still issues the archive-extraction call.
\<close>

theorem copy_missing_file_counterexample:
  "\<not> file_exists (node_posix no_files) ''./create_github_repo.sh''
   \<and> calls (copyFileToContainer (node_posix no_files) ''c1'' ''./create_github_repo.sh'' ''/app/''
        (init False))
     = [PutArchive ''c1'' \<lparr>gzip = False, portable = True, cwd = ''.'',
                            entries = [''create_github_repo.sh'']\<rparr> ''/app/'']"
  by (simp add: copyFileToContainer_def issue_def Let_def node_posix_def no_files_def init_def
      posix_dirname_def posix_basename_def)

text \<open>
  Claim C4, amended. \<^verbatim>\<open>copyFileToContainer\<close> never looks at whether the local path
  exists: what it does is the same whatever the file system holds. For every local path it
  issues exactly one archive-extraction call, with the archive rooted at
  \<^verbatim>\<open>dirname(localPath)\<close> holding the single entry \<^verbatim>\<open>basename(localPath)\<close> and with the
  destination path, and suspends on it; when the runtime rejects that call it fails with the
  runtime's error.
\<close>

theorem copyFileToContainer_no_existence_check:
  "copyFileToContainer (P\<lparr>file_exists := fe\<rparr>) c localPath destPath s
     = copyFileToContainer P c localPath destPath s
   \<and> calls (copyFileToContainer P c localPath destPath s)
       = calls s @ [PutArchive c \<lparr>gzip = False, portable = True, cwd = path_dirname P localPath,
                                   entries = [path_basename P localPath]\<rparr> destPath]
   \<and> length (filter is_put_archive (calls (copyFileToContainer P c localPath destPath s)))
       = Suc (length (filter is_put_archive (calls s)))
   \<and> pc (copyFileToContainer P c localPath destPath s) = AwaitPutArchive c
   \<and> step P (copyFileToContainer P c localPath destPath s) (Settled (Inl e))
       = (copyFileToContainer P c localPath destPath s)\<lparr>pc := Rejected e\<rparr>"
  by (simp add: copyFileToContainer_def issue_def Let_def step.simps)

subsection \<open>Interrupts\<close>

lemma main_next_alive:
  "sigint_handlers (main_next P c s) = sigint_handlers s \<and> pc (main_next P c s) \<noteq> Killed"
  by (simp add: main_next_def effect_defs resume_defs Let_def split: list.splits op.splits)

lemma settled_alive:
  assumes "h \<in> set (sigint_handlers s)" and "pc s \<noteq> Killed" and "q \<noteq> Killed"
  shows "h \<in> set (sigint_handlers (settled P q r s)) \<and> pc (settled P q r s) \<noteq> Killed"
  using assms
  by (cases "(P, q, r, s)" rule: settled.cases)
    (simp_all add: effect_defs resume_defs main_next_alive Let_def split: option.splits)

lemma run_listener_alive:
  assumes "h \<in> set (sigint_handlers s)" and "pc s \<noteq> Killed"
  shows "h \<in> set (sigint_handlers (run_listener P st ev f s)) \<and> pc (run_listener P st ev f s) \<noteq> Killed"
  using assms
  by (cases "(P, st, ev, f, s)" rule: run_listener.cases)
    (simp_all add: effect_defs main_next_alive split: pc.splits)

lemma sigint_handler_frame:
  "pc (fold sigint_handler hs s) = pc s
   \<and> sigint_handlers (fold sigint_handler hs s) = sigint_handlers s
   \<and> unhandled_rejections (fold sigint_handler hs s) = unhandled_rejections s
   \<and> todo (fold sigint_handler hs s) = todo s
   \<and> listeners (fold sigint_handler hs s) = listeners s"
  by (induction hs arbitrary: s) (simp_all add: sigint_handler_def effect_defs)

lemma sigint_frame:
  assumes "sigint_handlers s \<noteq> []"
  shows "pc (sigint s) = pc s \<and> sigint_handlers (sigint s) = sigint_handlers s
    \<and> unhandled_rejections (sigint s) = unhandled_rejections s
    \<and> todo (sigint s) = todo s \<and> listeners (sigint s) = listeners s"
proof -
  from assms obtain h hs where hs: "sigint_handlers s = h # hs"
    by (cases "sigint_handlers s") auto
  then have "sigint s = fold sigint_handler (h # hs) s"
    by (simp add: sigint_def)
  then show ?thesis
    using sigint_handler_frame [of "h # hs" s] by simp
qed

lemma handler_settled_frame:
  "pc (handler_settled r s) = pc s \<and> sigint_handlers (handler_settled r s) = sigint_handlers s
   \<and> todo (handler_settled r s) = todo s \<and> listeners (handler_settled r s) = listeners s"
  by (simp add: handler_settled.simps split: nat.splits sum.splits)

lemma step_alive:
  assumes "h \<in> set (sigint_handlers s)" and "pc s \<noteq> Killed"
  shows "h \<in> set (sigint_handlers (step P s i)) \<and> pc (step P s i) \<noteq> Killed"
proof (cases i)
  case (Settled r)
  then show ?thesis using assms settled_alive [of h s "pc s" P r] by (simp add: step.simps)
next
  case (HandlerSettled r)
  then show ?thesis using assms by (simp add: step.simps handler_settled_frame)
next
  case (StreamEvent st ev)
  have "h \<in> set (sigint_handlers (emit P st ev s)) \<and> pc (emit P st ev s) \<noteq> Killed"
    by (rule emit_invariant
        [where Q = "\<lambda>t. h \<in> set (sigint_handlers t) \<and> pc t \<noteq> Killed"])
      (use assms run_listener_alive in auto)
  then show ?thesis using StreamEvent assms by (simp add: step.simps)
next
  case SIGINT
  from assms have "sigint_handlers s \<noteq> []" by auto
  then show ?thesis using SIGINT assms sigint_frame [of s] by (simp add: step.simps)
qed

lemma run_alive:
  assumes "h \<in> set (sigint_handlers s)" and "pc s \<noteq> Killed"
  shows "h \<in> set (sigint_handlers (run P s ins)) \<and> pc (run P s ins) \<noteq> Killed"
  using assms by (induction ins arbitrary: s) (simp_all add: step_alive)

lemma count_forced_stops:
  "count_list (map (\<lambda>h. Stop h (Some True)) hs) (Stop c (Some True)) = count_list hs c"
  by (induction hs) simp_all

lemma sigint_issues_forced_stop:
  assumes "c \<in> set (sigint_handlers s)" and "pc s \<noteq> Killed"
  shows "pc (step P s SIGINT) = pc s"
    and "count_list (calls s) (Stop c (Some True)) < count_list (calls (step P s SIGINT)) (Stop c (Some True))"
proof -
  from assms have ne: "sigint_handlers s \<noteq> []" by auto
  show "pc (step P s SIGINT) = pc s"
    using assms sigint_frame [OF ne] by (simp add: step.simps)
  have "0 < count_list (sigint_handlers s) c"
    using assms(1) count_list_0_iff [of "sigint_handlers s" c] by auto
  then show "count_list (calls s) (Stop c (Some True)) < count_list (calls (step P s SIGINT)) (Stop c (Some True))"
    using assms(2) by (simp add: step.simps sigint_calls count_forced_stops)
qed

text \<open>
  Claim C2. \<^verbatim>\<open>startContainer\<close> has registered its interrupt handler in the very state in
  which the start call is in flight. From there on, after any sequence of inputs (the start
  call settling either way included), the process has not been killed, and one more interrupt
  leaves the main line where it is and issues a new \<^verbatim>\<open>stop({force: true})\<close> on that
  container.
\<close>

theorem startContainer_interrupt:
  "pc (startContainer c s) = AwaitStart c
   \<and> calls (startContainer c s) = calls s @ [Start c]
   \<and> c \<in> set (sigint_handlers (startContainer c s))
   \<and> pc (run P (startContainer c s) ins) \<noteq> Killed
   \<and> pc (step P (run P (startContainer c s) ins) SIGINT) = pc (run P (startContainer c s) ins)
   \<and> count_list (calls (run P (startContainer c s) ins)) (Stop c (Some True))
       < count_list (calls (step P (run P (startContainer c s) ins) SIGINT)) (Stop c (Some True))"
proof -
  let ?s1 = "startContainer c s"
  have a: "c \<in> set (sigint_handlers ?s1)" and b: "pc ?s1 \<noteq> Killed"
    by (simp_all add: startContainer_def issue_def)
  have c: "c \<in> set (sigint_handlers (run P ?s1 ins))" and d: "pc (run P ?s1 ins) \<noteq> Killed"
    using run_alive [OF a b] by simp_all
  show ?thesis
    using a d sigint_issues_forced_stop [OF c d]
    by (simp add: startContainer_def issue_def)
qed

subsection \<open>Waiting for the end of a stream\<close>

lemma sigint_no_handlers: "sigint_handlers s = [] \<Longrightarrow> sigint s = s\<lparr>pc := Killed\<rparr>"
  by (simp add: sigint_def)

lemma main_next_listeners: "listeners (main_next P c s) = listeners s"
  by (simp add: main_next_def effect_defs resume_defs Let_def split: list.splits op.splits)

lemma run_listener_listeners: "listeners (run_listener P st ev f s) = listeners s"
  by (cases "(P, st, ev, f, s)" rule: run_listener.cases)
    (simp_all add: effect_defs main_next_listeners split: pc.splits)

lemma emit_listeners: "listeners (emit P st ev s) = listeners s"
  by (rule emit_invariant [where Q = "\<lambda>t. listeners t = listeners s"])
    (simp_all add: run_listener_listeners)

lemma settled_resolve_only_on_end:
  "resolve_only_on_end s \<Longrightarrow> resolve_only_on_end (settled P q r s)"
  by (cases "(P, q, r, s)" rule: settled.cases)
    (simp_all add: resolve_only_on_end_def effect_defs resume_defs main_next_listeners Let_def
      split: option.splits)

lemma step_resolve_only_on_end:
  assumes "resolve_only_on_end s"
  shows "resolve_only_on_end (step P s i)"
proof (cases "pc s = Killed")
  case True
  then show ?thesis using assms by (simp add: step_Killed)
next
  case alive: False
  show ?thesis
  proof (cases i)
    case (Settled r)
    then show ?thesis using alive assms by (simp add: step.simps settled_resolve_only_on_end)
  next
    case (HandlerSettled r)
    then show ?thesis using alive assms
      by (simp add: step.simps resolve_only_on_end_def handler_settled_frame)
  next
    case (StreamEvent st ev)
    then show ?thesis using alive assms
      by (simp add: step.simps resolve_only_on_end_def emit_listeners)
  next
    case SIGINT
    then show ?thesis using alive assms
      by (cases "sigint_handlers s = []")
        (simp_all add: step.simps resolve_only_on_end_def sigint_frame sigint_no_handlers)
  qed
qed

lemma run_resolve_only_on_end:
  "resolve_only_on_end s \<Longrightarrow> resolve_only_on_end (run P s ins)"
  by (induction ins arbitrary: s) (simp_all add: step_resolve_only_on_end)

lemma run_listener_pc_other:
  "f \<noteq> ResolveWait \<Longrightarrow> pc (run_listener P st ev f s) = pc s"
  by (cases "(P, st, ev, f, s)" rule: run_listener.cases) (simp_all add: effect_defs)

lemma resolvers_for:
  assumes "resolve_only_on_end s" and "f \<in> set (listeners_for st n s)" and "f = ResolveWait"
  shows "n = ''end''"
  using assms by (auto simp: resolve_only_on_end_def listeners_for_def list_all_iff)

lemma emit_keeps_waiting:
  assumes w: "pc s = AwaitStreamEnd c st" and inv: "resolve_only_on_end s"
    and other: "st' \<noteq> st \<or> ev \<noteq> End"
  shows "pc (emit P st' ev s) = AwaitStreamEnd c st"
proof -
  let ?fs = "listeners_for st' (event_name ev) s"
  have q: "f = ResolveWait \<longrightarrow> st' \<noteq> st" if "f \<in> set ?fs" for f
  proof
    assume "f = ResolveWait"
    with inv that have "event_name ev = ''end''" by (rule resolvers_for)
    then have "ev = End" by (cases ev) simp_all
    with other show "st' \<noteq> st" by simp
  qed
  have "pc (fold (run_listener P st' ev) ?fs s) = AwaitStreamEnd c st"
  proof (rule fold_invariant [where Q = "\<lambda>f. f = ResolveWait \<longrightarrow> st' \<noteq> st"])
    show "f = ResolveWait \<longrightarrow> st' \<noteq> st" if "f \<in> set ?fs" for f using that by (rule q)
    show "pc s = AwaitStreamEnd c st" by (rule w)
    show "pc (run_listener P st' ev f t) = AwaitStreamEnd c st"
      if "f = ResolveWait \<longrightarrow> st' \<noteq> st" and "pc t = AwaitStreamEnd c st" for f t
      using that by (cases "f = ResolveWait") (auto simp: run_listener_pc_other)
  qed
  then show ?thesis using w by (simp add: emit_def Let_def split: stream_event.splits)
qed

lemma emit_pc_idle:
  assumes "\<And>c st'. pc s \<noteq> AwaitStreamEnd c st'"
  shows "pc (emit P st ev s) = pc s"
proof -
  have "pc (fold (run_listener P st ev) fs s) = pc s" for fs
  proof (rule fold_invariant [where Q = "\<lambda>f. True"])
    show "pc (run_listener P st ev f t) = pc s" if "pc t = pc s" for f t
      using that assms
      by (cases "(P, st, ev, f, t)" rule: run_listener.cases)
        (auto simp: effect_defs split: pc.splits)
  qed simp_all
  then show ?thesis by (simp add: emit_def Let_def split: stream_event.splits)
qed

lemma sigint_pc: "pc (sigint s) = pc s \<or> pc (sigint s) = Killed"
  by (cases "sigint_handlers s = []") (simp_all add: sigint_no_handlers sigint_frame)

lemma wait_step:
  assumes w: "pc s = AwaitStreamEnd c st" and inv: "resolve_only_on_end s"
    and i: "i \<noteq> StreamEvent st End"
  shows "pc (step P s i) = AwaitStreamEnd c st \<or> pc (step P s i) = Killed"
proof (cases i)
  case (Settled r)
  then show ?thesis using w by (simp add: step.simps)
next
  case (HandlerSettled r)
  then show ?thesis using w by (simp add: step.simps handler_settled_frame)
next
  case (StreamEvent st' ev)
  with i have "st' \<noteq> st \<or> ev \<noteq> End" by auto
  then show ?thesis using StreamEvent w emit_keeps_waiting [OF w inv] by (simp add: step.simps)
next
  case SIGINT
  then show ?thesis using w sigint_pc [of s] by (auto simp: step.simps)
qed

lemma exec_step:
  assumes "exec_not_returned c (pc s)" and "\<And>st. pc s \<noteq> AwaitStreamEnd c st"
  shows "exec_not_returned c (pc (step P s i))"
proof (cases "pc s = Killed")
  case True
  then show ?thesis using assms by (simp add: step_Killed)
next
  case alive: False
  have idle: "pc s \<noteq> AwaitStreamEnd a b" for a b
    using assms by (cases "pc s") auto
  show ?thesis
  proof (cases i)
    case (Settled r)
    then show ?thesis using alive assms
      by (cases "(P, pc s, r, s)" rule: settled.cases)
        (auto simp: step.simps effect_defs resume_defs Let_def split: option.splits)
  next
    case (HandlerSettled r)
    then show ?thesis using alive assms by (simp add: step.simps handler_settled_frame)
  next
    case (StreamEvent st' ev)
    then show ?thesis using alive assms(1) emit_pc_idle [of s P st' ev] idle
      by (simp add: step.simps)
  next
    case SIGINT
    then show ?thesis using alive assms(1) sigint_pc [of s] by (auto simp: step.simps)
  qed
qed

lemma exec_returns_only_after_end:
  assumes inv: "resolve_only_on_end s"
  shows "exec_not_returned c (pc (run P (runCommandInContainer c command s) ins))
     \<or> (\<exists>pre post st. ins = pre @ StreamEvent st End # post
           \<and> pc (run P (runCommandInContainer c command s) pre) = AwaitStreamEnd c st)"
proof (induction ins rule: rev_induct)
  case Nil
  then show ?case by (simp add: runCommandInContainer_def issue_def)
next
  case (snoc i ins)
  let ?s0 = "runCommandInContainer c command s"
  let ?t = "run P ?s0 ins"
  have inv0: "resolve_only_on_end ?s0"
    using inv by (simp add: resolve_only_on_end_def runCommandInContainer_def issue_def)
  have invt: "resolve_only_on_end ?t"
    using inv0 by (rule run_resolve_only_on_end)
  from snoc.IH show ?case
  proof
    assume "\<exists>pre post st. ins = pre @ StreamEvent st End # post \<and> pc (run P ?s0 pre) = AwaitStreamEnd c st"
    then obtain pre post st where "ins = pre @ StreamEvent st End # post"
      and "pc (run P ?s0 pre) = AwaitStreamEnd c st" by blast
    then have "ins @ [i] = pre @ StreamEvent st End # (post @ [i])
        \<and> pc (run P ?s0 pre) = AwaitStreamEnd c st" by simp
    then show ?thesis by blast
  next
    assume nr: "exec_not_returned c (pc ?t)"
    show ?thesis
    proof (cases "\<exists>st. pc ?t = AwaitStreamEnd c st")
      case True
      then obtain st where w: "pc ?t = AwaitStreamEnd c st" by blast
      show ?thesis
      proof (cases "i = StreamEvent st End")
        case True
        with w have "ins @ [i] = ins @ StreamEvent st End # [] \<and> pc (run P ?s0 ins) = AwaitStreamEnd c st"
          by simp
        then show ?thesis by blast
      next
        case False
        from wait_step [OF w invt False, of P]
        have "exec_not_returned c (pc (step P ?t i))" by auto
        then show ?thesis by (simp add: run_snoc)
      qed
    next
      case False
      then have "exec_not_returned c (pc (step P ?t i))"
        using nr exec_step [of c ?t P i] by blast
      then show ?thesis by (simp add: run_snoc)
    qed
  qed
qed


lemma main_next_pc_not_waiting: "pc (main_next P c s) \<noteq> AwaitStreamEnd a b"
  by (simp add: main_next_def effect_defs resume_defs Let_def split: list.splits op.splits)

lemma fold_end_idle:
  assumes "\<And>a b. pc u \<noteq> AwaitStreamEnd a b"
  shows "fold (run_listener P st End) fs u = u"
proof (induction fs)
  case Nil
  then show ?case by simp
next
  case (Cons f fs)
  have "run_listener P st End f u = u"
    using assms by (cases f) (simp_all split: pc.splits)
  with Cons show ?case by simp
qed

lemma fold_end_waiting:
  assumes "pc t = AwaitStreamEnd c st" and "ResolveWait \<in> set fs"
  shows "fold (run_listener P st End) fs t = main_next P c t"
  using assms
proof (induction fs)
  case Nil
  then show ?case by simp
next
  case (Cons f fs)
  show ?case
  proof (cases "f = ResolveWait")
    case True
    then have "run_listener P st End f t = main_next P c t"
      using Cons.prems(1) by simp
    then show ?thesis
      by (simp add: fold_end_idle main_next_pc_not_waiting)
  next
    case False
    then have "run_listener P st End f t = t" by (cases f) simp_all
    with False Cons show ?thesis by simp
  qed
qed

lemma end_resumes:
  assumes "pc t = AwaitStreamEnd c st" and "ResolveWait \<in> set (listeners_for st ''end'' t)"
  shows "step P t (StreamEvent st End) = main_next P c t"
proof -
  from assms(2) have "listeners_for st ''end'' t \<noteq> []" by auto
  then show ?thesis
    using assms by (simp add: step.simps emit_def Let_def fold_end_waiting)
qed

lemma run_listener_calls_other:
  "f \<noteq> ResolveWait \<Longrightarrow> calls (run_listener P st ev f s) = calls s"
  by (cases "(P, st, ev, f, s)" rule: run_listener.cases) (simp_all add: effect_defs)

lemma data_keeps_waiting:
  assumes w: "pc s = AwaitStreamEnd c st" and inv: "resolve_only_on_end s"
  shows "pc (step P s (StreamEvent st' (Data d))) = AwaitStreamEnd c st"
    and "calls (step P s (StreamEvent st' (Data d))) = calls s"
    and "listeners (step P s (StreamEvent st' (Data d))) = listeners s"
proof -
  show "pc (step P s (StreamEvent st' (Data d))) = AwaitStreamEnd c st"
    using w emit_keeps_waiting [OF w inv, of st' "Data d" P] by (simp add: step.simps)
  show "listeners (step P s (StreamEvent st' (Data d))) = listeners s"
    using w by (simp add: step.simps emit_listeners)
  let ?fs = "listeners_for st' (event_name (Data d)) s"
  have "calls (fold (run_listener P st' (Data d)) ?fs s) = calls s"
  proof (rule fold_invariant [where Q = "\<lambda>f. f \<noteq> ResolveWait"])
    show "f \<noteq> ResolveWait" if "f \<in> set ?fs" for f
      using resolvers_for [OF inv that] by auto
  qed (simp_all add: run_listener_calls_other)
  then show "calls (step P s (StreamEvent st' (Data d))) = calls s"
    using w by (simp add: step.simps emit_def Let_def)
qed

lemma chunks_keep_waiting:
  assumes "pc s = AwaitStreamEnd c st" and "resolve_only_on_end s"
  shows "pc (run P s (chunk_events st' chunks)) = AwaitStreamEnd c st
    \<and> calls (run P s (chunk_events st' chunks)) = calls s
    \<and> listeners (run P s (chunk_events st' chunks)) = listeners s"
  using assms
proof (induction chunks arbitrary: s)
  case Nil
  then show ?case by (simp add: chunk_events_def)
next
  case (Cons d chunks)
  let ?t = "step P s (StreamEvent st' (Data d))"
  have t: "pc ?t = AwaitStreamEnd c st" "calls ?t = calls s" "listeners ?t = listeners s"
    using data_keeps_waiting [OF Cons.prems] by simp_all
  have "resolve_only_on_end ?t"
    using Cons.prems(2) by (rule step_resolve_only_on_end)
  from Cons.IH [OF t(1) this] t show ?case
    by (simp add: chunk_events_def)
qed

text \<open>
  Claim C1. For every handle and command, under every sequence of inputs, a call of
  \<^verbatim>\<open>runCommandInContainer\<close> has either not returned, or the sequence holds an end event
  of the exec stream that arrived while the call was waiting on that stream. When the
  registrations do not throw and the stream emits N chunks, the call is still waiting after
  the chunks, has issued nothing more, and the end event then resumes the main line.
\<close>

theorem runCommandInContainer_waits_for_end:
  assumes inv: "resolve_only_on_end s"
  shows "(exec_not_returned c (pc (run P (runCommandInContainer c command s) ins))
       \<or> (\<exists>pre post st. ins = pre @ StreamEvent st End # post
             \<and> pc (run P (runCommandInContainer c command s) pre) = AwaitStreamEnd c st))
    \<and> (on_throws P st ''data'' = None \<and> on_throws P st ''end'' = None \<longrightarrow>
         (let s0 = run P (runCommandInContainer c command s)
                     [Settled (Inr (VSession x)), Settled (Inr (VStream st))]
          in pc (run P s0 (chunk_events st chunks)) = AwaitStreamEnd c st
             \<and> calls (run P s0 (chunk_events st chunks)) = calls s0
             \<and> run P s0 (chunk_events st chunks @ [StreamEvent st End])
                 = main_next P c (run P s0 (chunk_events st chunks))))"
proof (intro conjI impI)
  show "exec_not_returned c (pc (run P (runCommandInContainer c command s) ins))
       \<or> (\<exists>pre post st. ins = pre @ StreamEvent st End # post
             \<and> pc (run P (runCommandInContainer c command s) pre) = AwaitStreamEnd c st)"
    using inv by (rule exec_returns_only_after_end)
next
  assume on: "on_throws P st ''data'' = None \<and> on_throws P st ''end'' = None"
  define s0 where "s0 = run P (runCommandInContainer c command s)
                     [Settled (Inr (VSession x)), Settled (Inr (VStream st))]"
  have s0: "s0 = waitForStreamEnd P c st (stream_on st ''data'' LogCommandOutput
              (runCommandInContainer_session c x (runCommandInContainer c command s)))"
    using on by (simp add: s0_def step.simps runCommandInContainer_def
        runCommandInContainer_session_def runCommandInContainer_stream_def issue_def)
  have w: "pc s0 = AwaitStreamEnd c st"
    using on by (simp add: s0 waitForStreamEnd_def)
  have i0: "resolve_only_on_end s0"
    using on inv by (simp add: s0 waitForStreamEnd_def resolve_only_on_end_def effect_defs
        runCommandInContainer_def runCommandInContainer_session_def)
  have l0: "ResolveWait \<in> set (listeners_for st ''end'' s0)"
    using on by (simp add: s0 waitForStreamEnd_def listeners_for_def effect_defs)
  let ?t = "run P s0 (chunk_events st chunks)"
  have t: "pc ?t = AwaitStreamEnd c st" "calls ?t = calls s0" "listeners ?t = listeners s0"
    using chunks_keep_waiting [OF w i0, of P st chunks] by simp_all
  have "ResolveWait \<in> set (listeners_for st ''end'' ?t)"
    using l0 t(3) by (simp add: listeners_for_def)
  then have "run P s0 (chunk_events st chunks @ [StreamEvent st End]) = main_next P c ?t"
    using t(1) by (simp add: run_snoc end_resumes)
  with t show "let s0 = run P (runCommandInContainer c command s)
                     [Settled (Inr (VSession x)), Settled (Inr (VStream st))]
          in pc (run P s0 (chunk_events st chunks)) = AwaitStreamEnd c st
             \<and> calls (run P s0 (chunk_events st chunks)) = calls s0
             \<and> run P s0 (chunk_events st chunks @ [StreamEvent st End])
                 = main_next P c (run P s0 (chunk_events st chunks))"
    by (simp add: s0_def Let_def)
qed

theorem runCommandInContainer_waits_for_end_witness:
  "resolve_only_on_end (init False)
   \<and> on_throws (node_posix no_files) 1 ''data'' = None
   \<and> on_throws (node_posix no_files) 1 ''end'' = None
   \<and> pc (run (node_posix no_files)
         (run (node_posix no_files) (runCommandInContainer ''c1'' [''mkdir'', ''/app/''] (init False))
            [Settled (Inr (VSession 1)), Settled (Inr (VStream 1))])
         (chunk_events 1 [''a'', ''b''])) = AwaitStreamEnd ''c1'' 1"
proof -
  have h: "resolve_only_on_end (init False)"
    by (simp add: resolve_only_on_end_def init_def)
  have o: "on_throws (node_posix no_files) 1 ''data'' = None
      \<and> on_throws (node_posix no_files) 1 ''end'' = None"
    by (simp add: node_posix_def)
  from runCommandInContainer_waits_for_end
      [OF h, of "''c1''" "node_posix no_files" "[''mkdir'', ''/app/'']" "[]" 1 1 "[''a'', ''b'']"] o
  have "pc (run (node_posix no_files)
         (run (node_posix no_files) (runCommandInContainer ''c1'' [''mkdir'', ''/app/''] (init False))
            [Settled (Inr (VSession 1)), Settled (Inr (VStream 1))])
         (chunk_events 1 [''a'', ''b''])) = AwaitStreamEnd ''c1'' 1"
    unfolding Let_def by blast
  with h o show ?thesis by blast
qed

subsection \<open>Failures and cleanup\<close>

lemma emit_idle:
  assumes "\<And>c st'. pc s \<noteq> AwaitStreamEnd c st'"
  shows "pc (emit P st ev s) = pc s \<and> calls (emit P st ev s) = calls s"
proof -
  have "pc (fold (run_listener P st ev) fs s) = pc s \<and> calls (fold (run_listener P st ev) fs s) = calls s" for fs
  proof (rule fold_invariant [where Q = "\<lambda>f. True"])
    show "pc (run_listener P st ev f t) = pc s \<and> calls (run_listener P st ev f t) = calls s"
      if "pc t = pc s \<and> calls t = calls s" for f t
      using that assms
      by (cases "(P, st, ev, f, t)" rule: run_listener.cases)
        (auto simp: effect_defs split: pc.splits)
  qed simp_all
  then show ?thesis by (simp add: emit_def Let_def split: stream_event.splits)
qed

lemma filter_forced_stops: "filter (\<lambda>c. \<not> is_forced_stop c) (map (\<lambda>h. Stop h (Some True)) hs) = []"
  by (induction hs) simp_all

lemma rejected_step:
  assumes "pc s = Rejected e \<or> pc s = Killed"
  shows "(pc (step P s i) = pc s \<or> pc (step P s i) = Killed)
    \<and> filter (\<lambda>c. \<not> is_forced_stop c) (calls (step P s i)) = filter (\<lambda>c. \<not> is_forced_stop c) (calls s)"
proof (cases "pc s = Killed")
  case True
  then show ?thesis by (simp add: step_Killed)
next
  case False
  with assms have r: "pc s = Rejected e" by simp
  show ?thesis
  proof (cases i)
    case (Settled r')
    then show ?thesis using r by (simp add: step.simps)
  next
    case (HandlerSettled r')
    then show ?thesis using r by (simp add: step.simps handler_settled_frame handler_settled_calls)
  next
    case (StreamEvent st ev)
    then show ?thesis using r emit_idle [of s P st ev] by (simp add: step.simps)
  next
    case SIGINT
    then show ?thesis using r sigint_pc [of s]
      by (auto simp: step.simps sigint_calls filter_forced_stops)
  qed
qed

lemma rejected_run:
  assumes "pc s = Rejected e \<or> pc s = Killed"
  shows "(pc (run P s ins) = Rejected e \<or> pc (run P s ins) = Killed)
    \<and> filter (\<lambda>c. \<not> is_forced_stop c) (calls (run P s ins)) = filter (\<lambda>c. \<not> is_forced_stop c) (calls s)"
  using assms
proof (induction ins arbitrary: s)
  case Nil
  then show ?case by auto
next
  case (Cons i ins)
  from rejected_step [OF Cons.prems, of P i]
  have a: "pc (step P s i) = Rejected e \<or> pc (step P s i) = Killed"
    and b: "filter (\<lambda>c. \<not> is_forced_stop c) (calls (step P s i))
            = filter (\<lambda>c. \<not> is_forced_stop c) (calls s)"
    using Cons.prems by auto
  from Cons.IH [OF a] b show ?case by simp
qed

lemma failure_step:
  assumes "awaiting_call (pc s)"
  shows "step P s (Settled (Inl e)) = s\<lparr>pc := Rejected e\<rparr>"
  using assms by (cases "pc s") (simp_all add: step.simps)

text \<open>
  Claim C6, as stated, fails: when the first exec call is rejected, the main line is rejected
  with that error and the calls issued are the creation, the start, the logs and that exec;
  no stop and no remove was attempted.
\<close>

theorem failure_counterexample:
  "pc (run (node_posix no_files) (main False [''X=1'']) exec_failure_run) = Rejected (Err ''exec failed'')
   \<and> calls (run (node_posix no_files) (main False [''X=1'']) exec_failure_run)
     = [CreateContainer \<lparr>Image = ''node:latest'', Env = [''X=1''], Tty = True,
                         Cmd = [''/bin/sh''], OpenStdin = True\<rparr>,
        Start ''c1'', Logs ''c1'' True True True, Exec ''c1'' [''mkdir'', ''/app/''] True True]"
  by code_simp

text \<open>
  Claim C6, amended. When a call awaited by the main line is rejected, the main line is
  rejected with that error at once, and whatever arrives afterwards it stays so (or the process
  is killed): no call is issued any more except forced stops from the interrupt handler. So
  after a failure neither \<^verbatim>\<open>container.stop()\<close> nor \<^verbatim>\<open>container.remove()\<close> is attempted.
\<close>

theorem failure_aborts_without_cleanup:
  assumes "awaiting_call (pc s)"
  shows "step P s (Settled (Inl e)) = s\<lparr>pc := Rejected e\<rparr>
    \<and> (pc (run P s (Settled (Inl e) # ins)) = Rejected e \<or> pc (run P s (Settled (Inl e) # ins)) = Killed)
    \<and> filter (\<lambda>c. \<not> is_forced_stop c) (calls (run P s (Settled (Inl e) # ins)))
        = filter (\<lambda>c. \<not> is_forced_stop c) (calls s)"
proof -
  have f: "step P s (Settled (Inl e)) = s\<lparr>pc := Rejected e\<rparr>"
    using assms by (rule failure_step)
  have "pc (s\<lparr>pc := Rejected e\<rparr>) = Rejected e \<or> pc (s\<lparr>pc := Rejected e\<rparr>) = Killed" by simp
  from rejected_run [OF this, of P ins] f show ?thesis by simp
qed

theorem failure_aborts_without_cleanup_witness:
  "awaiting_call (pc (run (node_posix no_files) (main False [''X=1''])
       [Settled (Inr (VContainer ''c1'')), Settled (Inr VNone), Settled (Inr (VStream 0))]))
   \<and> pc (run (node_posix no_files)
        (run (node_posix no_files) (main False [''X=1''])
          [Settled (Inr (VContainer ''c1'')), Settled (Inr VNone), Settled (Inr (VStream 0))])
        [Settled (Inl (Err ''exec failed''))]) = Rejected (Err ''exec failed'')"
proof -
  have h: "awaiting_call (pc (run (node_posix no_files) (main False [''X=1''])
       [Settled (Inr (VContainer ''c1'')), Settled (Inr VNone), Settled (Inr (VStream 0))]))"
    by code_simp
  from failure_aborts_without_cleanup [OF h, of "node_posix no_files" "Err ''exec failed''" "[]"] h
  show ?thesis by simp
qed

subsection \<open>Stopping a container that has already stopped\<close>

text \<open>
  Claim C5, as stated, fails: after the interrupt handler's forced stop has stopped the
  container, the main line reaches its own stop; the runtime rejects it as already stopped,
  the main line is rejected with that error, and remove is never issued.
\<close>

theorem stop_after_interrupt_counterexample:
  "pc (run (node_posix no_files) (main False [''X=1'']) interrupted_run) = AwaitStop ''c1''
   \<and> Stop ''c1'' (Some True) \<in> set (calls (run (node_posix no_files) (main False [''X=1'']) interrupted_run))
   \<and> pc (run (node_posix no_files) (main False [''X=1''])
           (interrupted_run @ [Settled (Inl already_stopped)])) = Rejected already_stopped
   \<and> Remove ''c1'' \<notin> set (calls (run (node_posix no_files) (main False [''X=1''])
           (interrupted_run @ [Settled (Inl already_stopped)])))"
  by code_simp

lemma main_line_ok_main: "main_line_ok (pc (main d environment)) (main d environment)"
  by (simp add: main_def createContainer_def init_def issue_def no_remove_def)

lemma main_next_ok:
  assumes "todo s = drop 1 main_script \<or> todo s = drop 2 main_script \<or> todo s = drop 3 main_script
      \<or> todo s = drop 4 main_script \<or> todo s = main_script"
    and "no_remove s"
  shows "main_line_ok (pc (main_next P c s)) (main_next P c s)"
  using assms
  by (auto simp: main_next_def main_script_def effect_defs resume_defs no_remove_def Let_def)

lemma main_next_stop:
  assumes "todo s = [RemoveContainer]"
  shows "pc (main_next P c s) = AwaitRemove c" and "calls (main_next P c s) = calls s @ [Remove c]"
    and "console (main_next P c s) = console s" and "todo (main_next P c s) = []"
  using assms by (simp_all add: main_next_def effect_defs)

lemma main_next_done:
  assumes "todo s = []"
  shows "main_next P c s = s\<lparr>pc := Returned\<rparr>"
  using assms by (simp add: main_next_def)

lemma settled_ok:
  assumes "main_line_ok q s" and "pc s = q"
  shows "main_line_ok (pc (settled P q r s)) (settled P q r s)"
proof (cases "(P, q, r, s)" rule: settled.cases)
  case (8 P' c' st' s')
  then show ?thesis using assms
    by (auto simp: startContainer_logs_def effect_defs no_remove_def intro!: main_next_ok
        split: option.splits)
next
  case (11 P' c' v' s')
  then show ?thesis using assms by (auto intro!: main_next_ok)
next
  case (12 P' c' v' s')
  then show ?thesis using assms
    by (simp add: main_stopped_def main_next_stop effect_defs)
next
  case (13 P' c' v' s')
  then show ?thesis using assms
    by (simp add: main_removed_def main_next_done effect_defs)
qed (use assms in \<open>auto simp: effect_defs resume_defs no_remove_def Let_def split: option.splits\<close>)


lemma run_listener_ok:
  assumes "main_line_ok (pc s) s"
  shows "main_line_ok (pc (run_listener P st ev f s)) (run_listener P st ev f s)"
proof (cases "f = ResolveWait")
  case True
  show ?thesis
  proof (cases "\<exists>c. pc s = AwaitStreamEnd c st")
    case True
    then obtain c where c: "pc s = AwaitStreamEnd c st" by blast
    then have "run_listener P st ev f s = main_next P c s"
      using \<open>f = ResolveWait\<close> by simp
    moreover have "main_line_ok (pc (main_next P c s)) (main_next P c s)"
      using assms c by (auto intro!: main_next_ok)
    ultimately show ?thesis by simp
  next
    case False
    then have "run_listener P st ev f s = s"
      using \<open>f = ResolveWait\<close> by (auto split: pc.splits)
    then show ?thesis using assms by simp
  qed
next
  case False
  then have "pc (run_listener P st ev f s) = pc s \<and> todo (run_listener P st ev f s) = todo s
      \<and> calls (run_listener P st ev f s) = calls s"
    by (cases "(P, st, ev, f, s)" rule: run_listener.cases) (simp_all add: effect_defs)
  then show ?thesis using assms by (cases "pc s") (simp_all add: no_remove_def)
qed

lemma main_line_ok_frame:
  assumes "main_line_ok (pc s) s" and "pc t = pc s" and "todo t = todo s"
    and "filter is_remove (calls t) = filter is_remove (calls s)"
  shows "main_line_ok (pc t) t"
  using assms by (cases "pc s") (simp_all add: no_remove_def)

lemma remove_forced_stops: "filter is_remove (map (\<lambda>h. Stop h (Some True)) hs) = []"
  by (induction hs) simp_all

lemma handler_settled_todo: "todo (handler_settled r s) = todo s"
  by (simp add: handler_settled_frame)

lemma step_ok:
  assumes "main_line_ok (pc s) s"
  shows "main_line_ok (pc (step P s i)) (step P s i)"
proof (cases "pc s = Killed")
  case True
  then show ?thesis by (simp add: step_Killed)
next
  case alive: False
  show ?thesis
  proof (cases i)
    case (Settled r)
    then show ?thesis using alive assms settled_ok [of "pc s" s P r] by (simp add: step.simps)
  next
    case (HandlerSettled r)
    have "main_line_ok (pc (handler_settled r s)) (handler_settled r s)"
      using assms by (rule main_line_ok_frame) (simp_all add: handler_settled_frame handler_settled_calls)
    then show ?thesis using HandlerSettled alive by (simp add: step.simps)
  next
    case (StreamEvent st ev)
    have "main_line_ok (pc (emit P st ev s)) (emit P st ev s)"
    proof (rule emit_invariant [where Q = "\<lambda>t. main_line_ok (pc t) t"])
      show "main_line_ok (pc s) s" by (rule assms)
      show "main_line_ok (pc (run_listener P st ev f t)) (run_listener P st ev f t)"
        if "main_line_ok (pc t) t" for f t using that by (rule run_listener_ok)
      show "main_line_ok (pc (s\<lparr>unhandled_error_events := unhandled_error_events s @ [e]\<rparr>))
          (s\<lparr>unhandled_error_events := unhandled_error_events s @ [e]\<rparr>)" for e
        using assms by (rule main_line_ok_frame) simp_all
    qed
    then show ?thesis using StreamEvent alive by (simp add: step.simps)
  next
    case SIGINT
    show ?thesis
    proof (cases "sigint_handlers s = []")
      case True
      then show ?thesis using SIGINT alive by (simp add: step.simps sigint_no_handlers)
    next
      case False
      have "main_line_ok (pc (sigint s)) (sigint s)"
        using assms
        by (rule main_line_ok_frame) (simp_all add: sigint_frame [OF False] sigint_calls remove_forced_stops)
      then show ?thesis using SIGINT alive by (simp add: step.simps)
    qed
  qed
qed

lemma run_ok:
  assumes "main_line_ok (pc s) s"
  shows "main_line_ok (pc (run P s ins)) (run P s ins)"
  using assms by (induction ins arbitrary: s) (simp_all add: step_ok)

lemma filter_remove_nonforced:
  "filter is_remove (filter (\<lambda>c. \<not> is_forced_stop c) xs) = filter is_remove xs"
proof (induction xs)
  case Nil
  then show ?case by simp
next
  case (Cons x xs)
  then show ?case by (cases x) auto
qed

text \<open>
  Claim C5, amended. The main line passes the runtime's answers to its stop and its remove
  through. In every run of the main script that reaches the stop: a rejection, whatever its
  reason, rejects the main line with that error and no remove is ever issued; an acceptance is
  logged as stopped and the remove is issued. In every run that reaches the remove: a rejection
  rejects the main line with that error; an acceptance is logged as removed and the main line
  returns.
\<close>

theorem stop_and_remove_pass_answer_through:
  "(pc (run P (main d environment) ins) = AwaitStop c \<longrightarrow>
      (let s = run P (main d environment) ins in
         step P s (Settled (Inl e)) = s\<lparr>pc := Rejected e\<rparr>
       \<and> filter is_remove (calls (run P s (Settled (Inl e) # later))) = []
       \<and> pc (step P s (Settled (Inr v))) = AwaitRemove c
       \<and> calls (step P s (Settled (Inr v))) = calls s @ [Remove c]
       \<and> console (step P s (Settled (Inr v))) = console s @ [''Container '' @ c @ '' stopped.'']))
   \<and> (pc (run P (main d environment) ins') = AwaitRemove c' \<longrightarrow>
      (let s = run P (main d environment) ins' in
         step P s (Settled (Inl e')) = s\<lparr>pc := Rejected e'\<rparr>
       \<and> pc (step P s (Settled (Inr v'))) = Returned
       \<and> calls (step P s (Settled (Inr v'))) = calls s
       \<and> console (step P s (Settled (Inr v'))) = console s @ [''Container '' @ c' @ '' removed.'']))"
proof (intro conjI impI)
  assume p: "pc (run P (main d environment) ins) = AwaitStop c"
  let ?s = "run P (main d environment) ins"
  have ok: "main_line_ok (pc ?s) ?s"
    using main_line_ok_main by (rule run_ok)
  with p have t: "todo ?s = [RemoveContainer]" and nr: "filter is_remove (calls ?s) = []"
    by (simp_all add: no_remove_def)
  have f: "step P ?s (Settled (Inl e)) = ?s\<lparr>pc := Rejected e\<rparr>"
    using p by (simp add: failure_step)
  have "pc (?s\<lparr>pc := Rejected e\<rparr>) = Rejected e \<or> pc (?s\<lparr>pc := Rejected e\<rparr>) = Killed" by simp
  from rejected_run [OF this, of P later]
  have "filter (\<lambda>c. \<not> is_forced_stop c) (calls (run P ?s (Settled (Inl e) # later)))
        = filter (\<lambda>c. \<not> is_forced_stop c) (calls ?s)"
    using f by simp
  then have "filter is_remove (filter (\<lambda>c. \<not> is_forced_stop c) (calls (run P ?s (Settled (Inl e) # later))))
        = filter is_remove (filter (\<lambda>c. \<not> is_forced_stop c) (calls ?s))"
    by (rule arg_cong)
  then have r: "filter is_remove (calls (run P ?s (Settled (Inl e) # later))) = []"
    using nr by (simp only: filter_remove_nonforced)
  let ?u = "console_log (''Container '' @ c @ '' stopped.'') ?s"
  have a: "step P ?s (Settled (Inr v)) = main_next P c ?u"
    using p by (simp add: step.simps main_stopped_def)
  have "todo ?u = [RemoveContainer]" using t by (simp add: console_log_def)
  from main_next_stop [OF this, of P c]
  have "pc (main_next P c ?u) = AwaitRemove c" and "calls (main_next P c ?u) = calls ?s @ [Remove c]"
    and "console (main_next P c ?u) = console ?s @ [''Container '' @ c @ '' stopped.'']"
    by (simp_all add: console_log_def)
  with a f r show "let s = run P (main d environment) ins in
         step P s (Settled (Inl e)) = s\<lparr>pc := Rejected e\<rparr>
       \<and> filter is_remove (calls (run P s (Settled (Inl e) # later))) = []
       \<and> pc (step P s (Settled (Inr v))) = AwaitRemove c
       \<and> calls (step P s (Settled (Inr v))) = calls s @ [Remove c]
       \<and> console (step P s (Settled (Inr v))) = console s @ [''Container '' @ c @ '' stopped.'']"
    by (simp add: Let_def)
next
  assume p: "pc (run P (main d environment) ins') = AwaitRemove c'"
  let ?s = "run P (main d environment) ins'"
  have ok: "main_line_ok (pc ?s) ?s"
    using main_line_ok_main by (rule run_ok)
  with p have t: "todo ?s = []" by simp
  have f: "step P ?s (Settled (Inl e')) = ?s\<lparr>pc := Rejected e'\<rparr>"
    using p by (simp add: failure_step)
  let ?u = "console_log (''Container '' @ c' @ '' removed.'') ?s"
  have a: "step P ?s (Settled (Inr v')) = main_next P c' ?u"
    using p by (simp add: step.simps main_removed_def)
  have "todo ?u = []" using t by (simp add: console_log_def)
  from main_next_done [OF this, of P c']
  have "main_next P c' ?u = ?u\<lparr>pc := Returned\<rparr>" .
  with a f show "let s = run P (main d environment) ins' in
         step P s (Settled (Inl e')) = s\<lparr>pc := Rejected e'\<rparr>
       \<and> pc (step P s (Settled (Inr v'))) = Returned
       \<and> calls (step P s (Settled (Inr v'))) = calls s
       \<and> console (step P s (Settled (Inr v'))) = console s @ [''Container '' @ c' @ '' removed.'']"
    by (simp add: Let_def console_log_def)
qed

theorem stop_and_remove_pass_answer_through_witness:
  "pc (run (node_posix no_files) (main False [''X=1'']) interrupted_run) = AwaitStop ''c1''
   \<and> pc (run (node_posix no_files) (main False [''X=1'']) interrupted_run_stopped) = AwaitRemove ''c1''
   \<and> pc (step (node_posix no_files) (run (node_posix no_files) (main False [''X=1'']) interrupted_run)
          (Settled (Inl already_stopped))) = Rejected already_stopped
   \<and> calls (step (node_posix no_files) (run (node_posix no_files) (main False [''X=1'']) interrupted_run)
          (Settled (Inr VNone)))
       = calls (run (node_posix no_files) (main False [''X=1'']) interrupted_run) @ [Remove ''c1'']
   \<and> pc (step (node_posix no_files)
          (run (node_posix no_files) (main False [''X=1'']) interrupted_run_stopped)
          (Settled (Inl already_stopped))) = Rejected already_stopped
   \<and> pc (step (node_posix no_files)
          (run (node_posix no_files) (main False [''X=1'']) interrupted_run_stopped)
          (Settled (Inr VNone))) = Returned"
proof -
  have h1: "pc (run (node_posix no_files) (main False [''X=1'']) interrupted_run) = AwaitStop ''c1''"
    by code_simp
  have h2: "pc (run (node_posix no_files) (main False [''X=1'']) interrupted_run_stopped)
      = AwaitRemove ''c1''"
    by code_simp
  from stop_and_remove_pass_answer_through
      [of "node_posix no_files" False "[''X=1'']" interrupted_run "''c1''" already_stopped "[]" VNone
          interrupted_run_stopped "''c1''" already_stopped VNone] h1 h2
  show ?thesis by (simp add: Let_def)
qed

subsection \<open>An error event on the exec stream\<close>

text \<open>
  Claim C3 at a failing input: the exec stream emits an error event before its end. The
  main line is still waiting for the end of that stream, not rejected; the event found no
  listener.
\<close>

theorem stream_error_leaves_exec_pending:
  "pc (run (node_posix no_files) (main False [''X=1''])
        [Settled (Inr (VContainer ''c1'')), Settled (Inr VNone), Settled (Inr (VStream 0)),
         Settled (Inr (VSession 1)), Settled (Inr (VStream 1)),
         StreamEvent 1 (Error (Err ''socket hang up''))]) = AwaitStreamEnd ''c1'' 1
   \<and> unhandled_error_events (run (node_posix no_files) (main False [''X=1''])
        [Settled (Inr (VContainer ''c1'')), Settled (Inr VNone), Settled (Inr (VStream 0)),
         Settled (Inr (VSession 1)), Settled (Inr (VStream 1)),
         StreamEvent 1 (Error (Err ''socket hang up''))]) = [Err ''socket hang up'']"
  by code_simp

subsection \<open>Interrupts while Created and while Running\<close>

text \<open>
  Claim C7, as stated, fails: with the start call still in flight the container is Created; the
  interrupt runs the handler, the runtime rejects the forced stop of a container that is not
  running, and that rejection is unhandled.
\<close>

theorem interrupt_while_created_counterexample:
  "pc (run (node_posix no_files) (main False [''X=1'']) interrupt_while_created) = AwaitStart ''c1''
   \<and> calls (run (node_posix no_files) (main False [''X=1'']) interrupt_while_created)
     = [CreateContainer \<lparr>Image = ''node:latest'', Env = [''X=1''], Tty = True,
                         Cmd = [''/bin/sh''], OpenStdin = True\<rparr>,
        Start ''c1'', Stop ''c1'' (Some True)]
   \<and> unhandled_rejections (run (node_posix no_files) (main False [''X=1'']) interrupt_while_created)
     = [already_stopped]
   \<and> crashed_by_interrupt (run (node_posix no_files) (main False [''X=1'']) interrupt_while_created)"
  by code_simp

lemma sigint_handler_pending:
  "handler_pending (fold sigint_handler hs s) = handler_pending s + length hs"
  by (induction hs arbitrary: s) (simp_all add: sigint_handler_def effect_defs)

lemma sigint_pending:
  assumes "sigint_handlers s \<noteq> []"
  shows "\<exists>n. handler_pending (sigint s) = Suc n"
proof -
  from assms obtain h hs where hs: "sigint_handlers s = h # hs"
    by (cases "sigint_handlers s") auto
  then have "sigint s = fold sigint_handler (h # hs) s"
    by (simp add: sigint_def)
  then have "handler_pending (sigint s) = Suc (handler_pending s + length hs)"
    using sigint_handler_pending [of "h # hs" s] by simp
  then show ?thesis by blast
qed

lemma handler_settled_unhandled:
  assumes "handler_pending s = Suc n"
  shows "unhandled_rejections (handler_settled (Inr v) s) = unhandled_rejections s"
    and "unhandled_rejections (handler_settled (Inl e) s) = unhandled_rejections s @ [e]"
  using assms by (simp_all add: handler_settled.simps)

text \<open>
  Claim C7, amended. In a run that is not dry, once the runtime has answered the creation the
  start call is in flight with the handler registered. From then on, while Created or Running
  and after any inputs, an interrupt does not kill the process and leaves the main line where it
  is; the handler issues a new forced stop on the container. When the runtime accepts that stop
  nothing is left unhandled; when it rejects it, the rejection is unhandled.
\<close>

theorem interrupt_after_creation:
  "pc (run P (main False environment) [Settled (Inr (VContainer c))]) = AwaitStart c
   \<and> (let s = run P (main False environment) (Settled (Inr (VContainer c)) # ins) in
        pc s \<noteq> Killed
      \<and> pc (step P s SIGINT) = pc s
      \<and> count_list (calls s) (Stop c (Some True))
          < count_list (calls (step P s SIGINT)) (Stop c (Some True))
      \<and> unhandled_rejections (step P s SIGINT) = unhandled_rejections s
      \<and> unhandled_rejections (run P s [SIGINT, HandlerSettled (Inr v)]) = unhandled_rejections s
      \<and> unhandled_rejections (run P s [SIGINT, HandlerSettled (Inl e)]) = unhandled_rejections s @ [e])"
proof -
  let ?s1 = "step P (main False environment) (Settled (Inr (VContainer c)))"
  have s1: "?s1 = startContainer c
      (console_log (''Container '' @ c @ '' created.'') (main False environment))"
    by (simp add: step.simps main_def createContainer_def init_def main_created_def
        effect_defs Let_def)
  have a: "c \<in> set (sigint_handlers ?s1)" and b: "pc ?s1 \<noteq> Killed" and p: "pc ?s1 = AwaitStart c"
    by (simp_all add: s1 startContainer_def issue_def)
  let ?s = "run P ?s1 ins"
  have c: "c \<in> set (sigint_handlers ?s)" and d: "pc ?s \<noteq> Killed"
    using run_alive [OF a b] by simp_all
  then have ne: "sigint_handlers ?s \<noteq> []" by auto
  have k: "step P ?s SIGINT = sigint ?s" using d by (simp add: step.simps)
  have d': "pc (sigint ?s) \<noteq> Killed" using d sigint_frame [OF ne] by simp
  from sigint_pending [OF ne] obtain n where n: "handler_pending (sigint ?s) = Suc n" ..
  have u: "unhandled_rejections (sigint ?s) = unhandled_rejections ?s"
    using sigint_frame [OF ne] by simp
  have "unhandled_rejections (step P (sigint ?s) (HandlerSettled (Inr v))) = unhandled_rejections ?s"
    and "unhandled_rejections (step P (sigint ?s) (HandlerSettled (Inl e))) = unhandled_rejections ?s @ [e]"
    using d' u handler_settled_unhandled [OF n] by (simp_all add: step.simps)
  then show ?thesis
    using p d k u sigint_issues_forced_stop [OF c d, of P]
    by (simp add: Let_def)
qed

end
